theory Spec2Isabelle
  imports Main "HOL-Library.Word"
begin

unbundle bit_operations_syntax

section \<open>Status values\<close>

text \<open>
  Every function of the two source files reports through a status object: an OK value or
  an error code with a message. \<open>InvalidArgument\<close> is \<open>rocksdb::Status::InvalidArgument(msg)\<close>,
  \<open>RedisParseErr\<close> is \<open>Status(Status::RedisParseErr, msg)\<close>, \<open>NotOK_strerror\<close> is
  \<open>Status(Status::NotOK, strerror(errno))\<close> and \<open>FromErrno\<close> is \<open>Status::FromErrno()\<close>; the
  last two carry the value of \<open>errno\<close> at the time of the failure.
\<close>

datatype status =
    OK
  | InvalidArgument string
  | RedisParseErr string
  | NotOK_strerror nat
  | FromErrno nat

definition kErrLastEntryIdReached :: string where
  "kErrLastEntryIdReached = ''last possible entry id reached''"

definition kErrInvalidEntryIdSpecified :: string where
  "kErrInvalidEntryIdSpecified = ''Invalid stream ID specified as stream command argument''"

definition kErrDecodingStreamEntryValueFailure :: string where
  "kErrDecodingStreamEntryValueFailure = ''failed to decode stream entry value''"

text \<open>The three error kinds of the specification, as the source builds them.\<close>

definition ExhaustedIDSpace :: status where
  "ExhaustedIDSpace = InvalidArgument kErrLastEntryIdReached"

definition MalformedInput :: status where
  "MalformedInput = RedisParseErr kErrInvalidEntryIdSpecified"

definition CodecCorruption :: status where
  "CodecCorruption = RedisParseErr kErrDecodingStreamEntryValueFailure"

section \<open>Entry identifiers\<close>

text \<open>
  \<open>StreamEntryID\<close> and \<open>NewStreamEntryID\<close> are declared in \<open>redis_stream_base.h\<close>; the
  functions below use their fields \<open>ms\<close>, \<open>seq\<close> (both \<open>uint64_t\<close>) and \<open>any_seq_number\<close>
  (\<open>bool\<close>). The second record is written as an extension of the first so that both
  share the field names of the source.
\<close>

record StreamEntryID =
  ms :: "64 word"
  seq :: "64 word"

record NewStreamEntryID = StreamEntryID +
  any_seq_number :: bool

definition UINT64_MAX :: "64 word" where
  "UINT64_MAX = - 1"

text \<open>
  Modelled from the spec: the comparison of \<open>StreamEntryID\<close> values lives in
  \<open>redis_stream_base.h\<close>, which is not among the sources. The specification orders
  identifiers lexicographically by \<open>(ms, seq)\<close>, \<open>ms\<close> most significant.
\<close>

definition id_less :: "StreamEntryID \<Rightarrow> StreamEntryID \<Rightarrow> bool" where
  "id_less a b = (ms a < ms b \<or> (ms a = ms b \<and> seq a < seq b))"

text \<open>
  \<open>IncrementStreamEntryID\<close> mutates the identifier behind its pointer argument and returns
  a status: the model returns the status together with the identifier as the call leaves it.
\<close>

definition IncrementStreamEntryID :: "StreamEntryID \<Rightarrow> status \<times> StreamEntryID" where
  "IncrementStreamEntryID eid =
     (if seq eid = UINT64_MAX then
        (if ms eid = UINT64_MAX then
           (InvalidArgument kErrLastEntryIdReached, eid\<lparr>ms := 0, seq := 0\<rparr>)
         else (OK, eid\<lparr>ms := ms eid + 1, seq := 0\<rparr>))
      else (OK, eid\<lparr>seq := seq eid + 1\<rparr>))"

text \<open>
  \<open>GetNextStreamEntryID\<close> reads the wall clock through \<open>Util::GetTimeStampMS()\<close>; the value
  read is the parameter \<open>now_ms\<close>. \<open>new_id\<close> is the object behind the output pointer as the
  caller passed it.
\<close>

definition GetNextStreamEntryID ::
  "64 word \<Rightarrow> StreamEntryID \<Rightarrow> StreamEntryID \<Rightarrow> status \<times> StreamEntryID" where
  "GetNextStreamEntryID now_ms last_id new_id =
     (if now_ms > ms last_id then (OK, new_id\<lparr>ms := now_ms, seq := 0\<rparr>)
      else IncrementStreamEntryID last_id)"

text \<open>
  A chain of calls, each one taking the identifier issued by the call before it as its
  \<open>last_id\<close> and reading the next clock value of the list. The chain stops at the first
  call that does not return OK.
\<close>

fun issue_chain :: "StreamEntryID \<Rightarrow> 64 word list \<Rightarrow> StreamEntryID list" where
  "issue_chain last_id [] = []"
| "issue_chain last_id (now_ms # rest) =
     (case GetNextStreamEntryID now_ms last_id last_id of
        (OK, new_id) \<Rightarrow> new_id # issue_chain new_id rest
      | (_, _) \<Rightarrow> [])"

text \<open>
  A sequence of calls in which each call may take any identifier issued so far as its
  \<open>last_id\<close>: \<open>issued\<close> holds the identifiers issued so far, oldest first, and each call
  names the position of its \<open>last_id\<close> in that list and the clock value it reads. The
  identifier a call issues is appended. The sequence stops at the first call that does
  not return OK or names a position that does not exist.
\<close>

fun issue_from_any :: "StreamEntryID list \<Rightarrow> (nat \<times> 64 word) list \<Rightarrow> StreamEntryID list" where
  "issue_from_any issued [] = issued"
| "issue_from_any issued ((i, now_ms) # rest) =
     (if i < length issued then
        (case GetNextStreamEntryID now_ms (issued ! i) (issued ! i) of
           (OK, new_id) \<Rightarrow> issue_from_any (issued @ [new_id]) rest
         | (_, _) \<Rightarrow> issued)
      else issued)"

section \<open>Parsing identifiers\<close>

text \<open>
  The identifier text is a \<open>std::string\<close>, modelled as a \<open>string\<close>. \<open>find_char\<close> is
  \<open>std::string::find(char)\<close>: the index of the first occurrence, \<open>None\<close> for \<open>npos\<close>.
  \<open>input.substr(0, pos)\<close> is \<open>take pos input\<close> and \<open>input.substr(pos + 1)\<close> is
  \<open>drop (pos + 1) input\<close>; \<open>pos + 1\<close> never exceeds the size, so neither call throws.
\<close>

fun find_char :: "char \<Rightarrow> string \<Rightarrow> nat option" where
  "find_char c [] = None"
| "find_char c (x # xs) = (if x = c then Some 0 else map_option Suc (find_char c xs))"

text \<open>
  Modelled from the spec: \<open>ParseInt<uint64_t>(v, 10)\<close> is defined in \<open>parse_util.h\<close>, which
  is not among the sources. The specification requires each component to be a base-10,
  unsigned, unsigned-64-bit representable integer with no sign and no extraneous
  characters: the model accepts exactly the non-empty strings of decimal digits whose
  value is below \<open>2 ^ 64\<close>. \<open>is_digit\<close>, \<open>digit_value\<close> and \<open>decimal_value\<close> are the parts of
  that model: the decimal digits, the value of one, and the value of a string of them.
\<close>

definition is_digit :: "char \<Rightarrow> bool" where
  "is_digit c = (c \<in> set ''0123456789'')"

definition digit_value :: "char \<Rightarrow> nat" where
  "digit_value c = of_char c - 48"

definition decimal_value :: "string \<Rightarrow> nat" where
  "decimal_value v = foldl (\<lambda>acc c. 10 * acc + digit_value c) 0 v"

text \<open>
  Modelled from the spec: \<open>ParseInt<uint64_t>(v, 10)\<close> of \<open>parse_util.h\<close>, \<open>None\<close> where the
  source's result holds an error.
\<close>

definition ParseInt_uint64 :: "string \<Rightarrow> 64 word option" where
  "ParseInt_uint64 v =
     (if v \<noteq> [] \<and> list_all is_digit v \<and> decimal_value v < 2 ^ 64
      then Some (of_nat (decimal_value v)) else None)"

text \<open>
  Each parser writes through its output pointer; the model takes the object behind the
  pointer as the caller passed it and returns it, as the call leaves it, next to the status.
\<close>

definition ParseStreamEntryID :: "string \<Rightarrow> StreamEntryID \<Rightarrow> status \<times> StreamEntryID" where
  "ParseStreamEntryID input eid =
     (case find_char CHR ''-'' input of
        Some pos \<Rightarrow>
          (let ms_str = take pos input;
               seq_str = drop (pos + 1) input;
               parse_ms = ParseInt_uint64 ms_str;
               parse_seq = ParseInt_uint64 seq_str
           in case (parse_ms, parse_seq) of
                (Some m, Some s) \<Rightarrow> (OK, eid\<lparr>ms := m, seq := s\<rparr>)
              | _ \<Rightarrow> (RedisParseErr kErrInvalidEntryIdSpecified, eid))
      | None \<Rightarrow>
          (case ParseInt_uint64 input of
             None \<Rightarrow> (RedisParseErr kErrInvalidEntryIdSpecified, eid)
           | Some m \<Rightarrow> (OK, eid\<lparr>ms := m, seq := 0\<rparr>)))"

definition ParseNewStreamEntryID ::
  "string \<Rightarrow> NewStreamEntryID \<Rightarrow> status \<times> NewStreamEntryID" where
  "ParseNewStreamEntryID input eid =
     (case find_char CHR ''-'' input of
        Some pos \<Rightarrow>
          (let ms_str = take pos input;
               seq_str = drop (pos + 1) input
           in case ParseInt_uint64 ms_str of
                None \<Rightarrow> (RedisParseErr kErrInvalidEntryIdSpecified, eid)
              | Some m \<Rightarrow>
                  (let eid1 = eid\<lparr>ms := m\<rparr>
                   in if seq_str = ''*'' then (OK, eid1\<lparr>any_seq_number := True\<rparr>)
                      else (case ParseInt_uint64 seq_str of
                              None \<Rightarrow> (RedisParseErr kErrInvalidEntryIdSpecified, eid1)
                            | Some s \<Rightarrow> (OK, eid1\<lparr>seq := s\<rparr>))))
      | None \<Rightarrow>
          (case ParseInt_uint64 input of
             None \<Rightarrow> (RedisParseErr kErrInvalidEntryIdSpecified, eid)
           | Some m \<Rightarrow> (OK, eid\<lparr>ms := m, seq := 0\<rparr>)))"

definition ParseRangeStart :: "string \<Rightarrow> StreamEntryID \<Rightarrow> status \<times> StreamEntryID" where
  "ParseRangeStart input eid = ParseStreamEntryID input eid"

definition ParseRangeEnd :: "string \<Rightarrow> StreamEntryID \<Rightarrow> status \<times> StreamEntryID" where
  "ParseRangeEnd input eid =
     (case find_char CHR ''-'' input of
        Some pos \<Rightarrow>
          (let ms_str = take pos input;
               seq_str = drop (pos + 1) input;
               parse_ms = ParseInt_uint64 ms_str;
               parse_seq = ParseInt_uint64 seq_str
           in case (parse_ms, parse_seq) of
                (Some m, Some s) \<Rightarrow> (OK, eid\<lparr>ms := m, seq := s\<rparr>)
              | _ \<Rightarrow> (RedisParseErr kErrInvalidEntryIdSpecified, eid))
      | None \<Rightarrow>
          (case ParseInt_uint64 input of
             None \<Rightarrow> (RedisParseErr kErrInvalidEntryIdSpecified, eid)
           | Some m \<Rightarrow> (OK, eid\<lparr>ms := m, seq := UINT64_MAX\<rparr>)))"

section \<open>The value codec\<close>

text \<open>
  The payload and its elements are \<open>std::string\<close> values used as raw bytes, modelled as
  lists of bytes.
\<close>

type_synonym byte = "8 word"

text \<open>
  Modelled from the spec: \<open>PutVarint32\<close> and \<open>GetVarint32\<close> come from \<open>encoding.h\<close>, which is
  not among the sources. The specification asks for a variable-length unsigned-32-bit
  length prefix whose byte length depends on its magnitude: the model is the usual
  little-endian base-128 varint, seven value bits a byte, the top bit set on every byte
  but the last, at most five bytes. \<open>EncodeVarint32\<close> gives the bytes of one prefix.
\<close>

function EncodeVarint32 :: "32 word \<Rightarrow> byte list" where
  "EncodeVarint32 v =
     (if v < 128 then [ucast v] else ucast (v OR 128) # EncodeVarint32 (drop_bit 7 v))"
  by pat_completeness auto
termination
proof (relation "measure unat")
  show "wf (measure (unat :: 32 word \<Rightarrow> nat))" by simp
next
  fix v :: "32 word"
  assume "\<not> v < 128"
  then have "128 \<le> unat v" by (simp add: word_less_nat_alt)
  then have "unat v div 2 ^ 7 < unat v" by simp
  then have "drop_bit 7 (unat v) < unat v" by (simp only: drop_bit_eq_div)
  then have "unat (drop_bit 7 v) < unat v" by (simp only: unat_drop_bit_eq)
  then show "(drop_bit 7 v, v) \<in> measure unat"
    by (simp only: in_measure)
qed

declare EncodeVarint32.simps [simp del]

text \<open>
  Modelled from the spec: \<open>PutVarint32(&dst, v)\<close> of \<open>encoding.h\<close> appends the prefix of the
  \<open>uint32_t\<close> value \<open>v\<close> to \<open>dst\<close>.
\<close>

definition PutVarint32 :: "byte list \<Rightarrow> 32 word \<Rightarrow> byte list" where
  "PutVarint32 dst v = dst @ EncodeVarint32 v"

text \<open>
  Modelled from the spec: the loop that reads one prefix for \<open>GetVarint32\<close>, with the
  shift and the value accumulated so far. It gives up when the buffer ends inside the
  prefix or a fifth byte still has its top bit set.
\<close>

fun GetVarint32Ptr :: "nat \<Rightarrow> 32 word \<Rightarrow> byte list \<Rightarrow> (32 word \<times> byte list) option" where
  "GetVarint32Ptr shift result [] = None"
| "GetVarint32Ptr shift result (b # p) =
     (if shift \<le> 28 then
        (if b AND 128 \<noteq> 0
         then GetVarint32Ptr (shift + 7) (result OR push_bit shift (ucast b AND 127)) p
         else Some (result OR push_bit shift (ucast b), p))
      else None)"

text \<open>
  Modelled from the spec: \<open>GetVarint32(&s, &len)\<close> of \<open>encoding.h\<close> returns the value and the
  slice advanced past the prefix, or \<open>None\<close> where the source returns \<open>false\<close>.
\<close>

definition GetVarint32 :: "byte list \<Rightarrow> (32 word \<times> byte list) option" where
  "GetVarint32 s = GetVarint32Ptr 0 0 s"

text \<open>
  \<open>EncodeStreamEntryValue\<close>: the loop over \<open>args\<close> appends to \<open>dst\<close>. \<open>v.size()\<close> is a
  \<open>size_t\<close> passed to a \<open>uint32_t\<close> parameter: the conversion keeps the low 32 bits.
\<close>

definition EncodeStreamEntryValue :: "byte list list \<Rightarrow> byte list" where
  "EncodeStreamEntryValue args =
     foldl (\<lambda>dst v. PutVarint32 dst (of_nat (length v)) @ v) [] args"

text \<open>
  \<open>DecodeRawStreamEntryValue\<close> returns a status and leaves the decoded elements in
  \<open>result\<close>. After a successful \<open>GetVarint32\<close> the source builds the element from
  \<open>s.data()\<close> and \<open>len\<close> and calls \<open>s.remove_prefix(len)\<close> without comparing \<open>len\<close> with
  \<open>s.size()\<close>. When \<open>len\<close> exceeds the bytes that remain, the string constructor reads
  beyond the buffer and \<open>remove_prefix\<close> is called outside its precondition: the
  behaviour is undefined, and the model says so with \<open>ReadsPastEnd\<close> instead of a status.
\<close>

datatype 'a run = Returns 'a | ReadsPastEnd

function decode_loop :: "byte list \<Rightarrow> byte list list \<Rightarrow> (status \<times> byte list list) run" where
  "decode_loop s result =
     (if s = [] then Returns (OK, result)
      else (case GetVarint32 s of
              None \<Rightarrow> Returns (RedisParseErr kErrDecodingStreamEntryValueFailure, result)
            | Some (len, s') \<Rightarrow>
                if length s' < unat len then ReadsPastEnd
                else decode_loop (drop (unat len) s') (result @ [take (unat len) s'])))"
  by pat_completeness auto
termination
proof (relation "measure (\<lambda>(s, result). length s)")
  show "wf (measure (\<lambda>(s :: byte list, result :: byte list list). length s))" by simp
next
  fix s :: "byte list" and result :: "byte list list" and x2 len s'
  assume a: "GetVarint32 s = Some x2" "(len, s') = x2"
  have shorter: "length q < length p"
    if "GetVarint32Ptr shift acc p = Some (v, q)" for shift acc p v q
    using that
  proof (induction p arbitrary: shift acc)
    case Nil
    then show ?case by simp
  next
    case (Cons b p)
    then show ?case by (fastforce split: if_splits)
  qed
  have "length s' < length s" using a shorter [of 0 0 s len s'] by (simp add: GetVarint32_def)
  then show "((drop (unat len) s', result @ [take (unat len) s']), s, result)
               \<in> measure (\<lambda>(s, result). length s)"
    by simp
qed

declare decode_loop.simps [simp del]

definition DecodeRawStreamEntryValue ::
  "byte list \<Rightarrow> byte list list \<Rightarrow> (status \<times> byte list list) run" where
  "DecodeRawStreamEntryValue value result = decode_loop value []"

text \<open>The bytes one element contributes to the encoding: its length prefix, then the element.\<close>

definition encode_element :: "byte list \<Rightarrow> byte list" where
  "encode_element v = EncodeVarint32 (of_nat (length v)) @ v"

section \<open>Output primitives of the socket utilities\<close>

text \<open>
  The loops of \<open>io_util.cc\<close> call \<open>write\<close>, \<open>pwrite\<close> and \<open>sendfile\<close>. What each call
  returns is an input of the model: a list of outcomes, one for each call in order, each
  the \<open>ssize_t\<close> return value (a 64-bit word, \<open>-1\<close> all bits set) and the value of
  \<open>errno\<close> after the call. A run that needs more outcomes than the list holds has no
  result (\<open>None\<close>). Next to the status, a run returns the calls it issued, each as its
  offset and byte count.
\<close>

text \<open>
  \<open>EINTR\<close> comes from the system's \<open>errno.h\<close>; its value on Linux is 4. Nothing below
  depends on the number.
\<close>

record outcome =
  ret :: "64 word"
  errno :: nat

definition EINTR :: nat where
  "EINTR = 4"

type_synonym call = "64 word \<times> 64 word"

text \<open>
  \<open>WriteImpl\<close>: \<open>n\<close> is an \<open>ssize_t\<close> compared as signed with \<open>data.size()\<close>; each call is
  for the \<open>data.size() - n\<close> bytes at \<open>data.data() + n\<close>.
\<close>

fun WriteImpl_loop ::
  "64 word \<Rightarrow> 64 word \<Rightarrow> call list \<Rightarrow> outcome list \<Rightarrow> (status \<times> call list) option" where
  "WriteImpl_loop sz n calls [] =
     (if word_sless n sz then None else Some (OK, calls))"
| "WriteImpl_loop sz n calls (r # rest) =
     (if word_sless n sz then
        (let nwritten = ret r; calls' = calls @ [(n, sz - n)]
         in if nwritten = - 1 then Some (FromErrno (errno r), calls')
            else WriteImpl_loop sz (n + nwritten) calls' rest)
      else Some (OK, calls))"

definition WriteImpl :: "byte list \<Rightarrow> outcome list \<Rightarrow> (status \<times> call list) option" where
  "WriteImpl data outcomes = WriteImpl_loop (of_nat (length data)) 0 [] outcomes"

definition Write :: "byte list \<Rightarrow> outcome list \<Rightarrow> (status \<times> call list) option" where
  "Write data outcomes = WriteImpl data outcomes"

definition SockSend :: "byte list \<Rightarrow> outcome list \<Rightarrow> (status \<times> call list) option" where
  "SockSend data outcomes = Write data outcomes"

text \<open>
  \<open>SockSendFile\<close>: \<open>size\<close> is a \<open>size_t\<close>, \<open>offset\<close> an \<open>off_t\<close>, both 64-bit words here;
  each call to \<open>SockSendFileCore\<close> is for \<open>n\<close> bytes at \<open>offset\<close>. The file descriptors
  play no part in the loop and are left out.
\<close>

fun SockSendFile_loop ::
  "64 word \<Rightarrow> 64 word \<Rightarrow> call list \<Rightarrow> outcome list \<Rightarrow> (status \<times> call list) option" where
  "SockSendFile_loop sz offset calls [] =
     (if sz \<noteq> 0 then None else Some (OK, calls))"
| "SockSendFile_loop sz offset calls (r # rest) =
     (if sz \<noteq> 0 then
        (let n = (if sz \<le> 16 * 1024 then sz else 16 * 1024);
             nwritten = ret r;
             calls' = calls @ [(offset, n)]
         in if nwritten = - 1 then
              (if errno r = EINTR then SockSendFile_loop sz offset calls' rest
               else Some (NotOK_strerror (errno r), calls'))
            else SockSendFile_loop (sz - nwritten) (offset + nwritten) calls' rest)
      else Some (OK, calls))"

definition SockSendFile :: "64 word \<Rightarrow> outcome list \<Rightarrow> (status \<times> call list) option" where
  "SockSendFile sz outcomes = SockSendFile_loop sz 0 [] outcomes"

text \<open>The byte count \<open>n\<close> of one call of \<open>SockSendFile\<close> when \<open>sz\<close> bytes remain.\<close>

definition chunk :: "64 word \<Rightarrow> 64 word" where
  "chunk sz = (if sz \<le> 16 * 1024 then sz else 16 * 1024)"


section \<open>Identifier arithmetic\<close>

lemma unat_UINT64_MAX: "unat UINT64_MAX = 2 ^ 64 - 1"
  by (simp add: UINT64_MAX_def unsigned_minus_1_eq_mask mask_eq_exp_minus_1)

lemma unat_succ:
  assumes "(x::64 word) \<noteq> UINT64_MAX" shows "unat (x + 1) = unat x + 1"
proof -
  have "unat x \<noteq> 2 ^ 64 - 1" using assms unat_UINT64_MAX by (metis word_unat_eq_iff)
  moreover have "unat x < 2 ^ 64" using unsigned_less [of x] by simp
  ultimately have "unat x + 1 < 2 ^ 64" by linarith
  then show ?thesis by (simp add: unat_word_ariths)
qed

lemma less_succ: "(x::64 word) \<noteq> UINT64_MAX \<Longrightarrow> x < x + 1"
  by (simp add: word_less_nat_alt unat_succ)

lemma no_between: "(x::64 word) \<noteq> UINT64_MAX \<Longrightarrow> x < y \<Longrightarrow> \<not> y < x + 1"
  by (simp add: word_less_nat_alt unat_succ)

lemma word_less_max_iff: "(x::64 word) < UINT64_MAX \<longleftrightarrow> x \<noteq> UINT64_MAX"
  unfolding UINT64_MAX_def by (simp add: word_order.not_eq_extremum)

lemma id_less_trans: "id_less a b \<Longrightarrow> id_less b c \<Longrightarrow> id_less a c"
  by (auto simp: id_less_def)

lemma id_less_irrefl: "\<not> id_less a a"
  by (simp add: id_less_def)

lemma Increment_OK_iff:
  "fst (IncrementStreamEntryID eid) = OK \<longleftrightarrow> \<not> (ms eid = UINT64_MAX \<and> seq eid = UINT64_MAX)"
  by (simp add: IncrementStreamEntryID_def)

lemma Increment_greater:
  "IncrementStreamEntryID eid = (OK, eid') \<Longrightarrow> id_less eid eid'"
  by (auto simp: IncrementStreamEntryID_def id_less_def less_succ split: if_splits)

text \<open>No identifier lies strictly between an identifier and the one its increment yields.\<close>

lemma Increment_immediate:
  assumes "IncrementStreamEntryID eid = (OK, eid')" and "id_less eid x"
  shows "\<not> id_less x eid'"
proof (cases "seq eid = UINT64_MAX")
  case False
  then have e: "ms eid' = ms eid" "seq eid' = seq eid + 1"
    using assms(1) by (auto simp: IncrementStreamEntryID_def)
  show ?thesis using assms(2) no_between [OF False] unfolding id_less_def e
    by auto
next
  case True
  then have m: "ms eid \<noteq> UINT64_MAX" using assms(1)
    by (auto simp: IncrementStreamEntryID_def split: if_splits)
  then have e: "ms eid' = ms eid + 1" "seq eid' = 0"
    using assms(1) True by (auto simp: IncrementStreamEntryID_def)
  have "\<not> seq eid < seq x" using True by (simp add: UINT64_MAX_def word_order.extremum_strict)
  then have "ms eid < ms x" using assms(2) by (auto simp: id_less_def)
  then show ?thesis using no_between [OF m] unfolding id_less_def e by auto
qed

lemma GetNext_greater:
  assumes "GetNextStreamEntryID now_ms last_id new_id = (OK, r)"
  shows "id_less last_id r"
proof (cases "now_ms > ms last_id")
  case True
  then show ?thesis using assms by (auto simp: GetNextStreamEntryID_def id_less_def)
next
  case False
  then show ?thesis using assms Increment_greater by (simp add: GetNextStreamEntryID_def)
qed

lemma GetNext_OK:
  assumes "\<not> (ms last_id = UINT64_MAX \<and> seq last_id = UINT64_MAX)"
  shows "fst (GetNextStreamEntryID now_ms last_id new_id) = OK"
  using assms Increment_OK_iff [of last_id] by (simp add: GetNextStreamEntryID_def)

lemma issue_chain_greater: "\<forall>x \<in> set (issue_chain last_id nows). id_less last_id x"
proof (induction nows arbitrary: last_id)
  case Nil
  show ?case by simp
next
  case (Cons now_ms rest)
  obtain st r where g: "GetNextStreamEntryID now_ms last_id last_id = (st, r)"
    by (cases "GetNextStreamEntryID now_ms last_id last_id")
  show ?case
  proof (cases st)
    case OK
    then have lr: "id_less last_id r" using g GetNext_greater by blast
    have "\<forall>x \<in> set (issue_chain r rest). id_less last_id x"
      using Cons.IH [of r] lr id_less_trans by blast
    then show ?thesis using g OK lr by simp
  qed (use g in simp_all)
qed

lemma issue_chain_sorted: "sorted_wrt id_less (issue_chain last_id nows)"
proof (induction nows arbitrary: last_id)
  case Nil
  show ?case by simp
next
  case (Cons now_ms rest)
  obtain st r where g: "GetNextStreamEntryID now_ms last_id last_id = (st, r)"
    by (cases "GetNextStreamEntryID now_ms last_id last_id")
  show ?case
  proof (cases st)
    case OK
    then show ?thesis using g Cons.IH [of r] issue_chain_greater [of r rest] by simp
  qed (use g in simp_all)
qed

text \<open>
  C3. Increment is the immediate-successor function: with \<open>seq\<close> below \<open>UINT64_MAX\<close> it
  succeeds with \<open>(ms, seq + 1)\<close>; with \<open>seq = UINT64_MAX\<close> and \<open>ms\<close> below \<open>UINT64_MAX\<close> it
  succeeds with \<open>(ms + 1, 0)\<close>; on \<open>(UINT64_MAX, UINT64_MAX)\<close> it fails with ExhaustedIDSpace
  and leaves the identifier reset to \<open>(0, 0)\<close>. Neither addition wraps, and whenever the
  call succeeds no identifier lies strictly between the argument and the result.
\<close>

theorem Increment_successor:
  "(seq eid < UINT64_MAX \<longrightarrow>
      IncrementStreamEntryID eid = (OK, \<lparr>ms = ms eid, seq = seq eid + 1\<rparr>) \<and>
      unat (seq eid + 1) = unat (seq eid) + 1) \<and>
   (seq eid = UINT64_MAX \<and> ms eid < UINT64_MAX \<longrightarrow>
      IncrementStreamEntryID eid = (OK, \<lparr>ms = ms eid + 1, seq = 0\<rparr>) \<and>
      unat (ms eid + 1) = unat (ms eid) + 1) \<and>
   (seq eid = UINT64_MAX \<and> ms eid = UINT64_MAX \<longrightarrow>
      IncrementStreamEntryID eid = (ExhaustedIDSpace, \<lparr>ms = 0, seq = 0\<rparr>)) \<and>
   (\<forall>r x. IncrementStreamEntryID eid = (OK, r) \<longrightarrow>
      id_less eid r \<and> \<not> (id_less eid x \<and> id_less x r))"
proof -
  have "\<forall>r x. IncrementStreamEntryID eid = (OK, r) \<longrightarrow>
      id_less eid r \<and> \<not> (id_less eid x \<and> id_less x r)"
    using Increment_greater Increment_immediate by blast
  then show ?thesis
    by (simp add: IncrementStreamEntryID_def ExhaustedIDSpace_def word_less_max_iff unat_succ)
qed

theorem Increment_successor_witness:
  "IncrementStreamEntryID \<lparr>ms = 10, seq = 5\<rparr> = (OK, \<lparr>ms = 10, seq = 6\<rparr>) \<and>
   IncrementStreamEntryID \<lparr>ms = 10, seq = UINT64_MAX\<rparr> = (OK, \<lparr>ms = 11, seq = 0\<rparr>) \<and>
   IncrementStreamEntryID \<lparr>ms = UINT64_MAX, seq = UINT64_MAX\<rparr>
     = (ExhaustedIDSpace, \<lparr>ms = 0, seq = 0\<rparr>) \<and>
   id_less \<lparr>ms = 10, seq = 5\<rparr> \<lparr>ms = 10, seq = 6\<rparr>"
  using Increment_successor [of "\<lparr>ms = 10, seq = 5\<rparr>"]
        Increment_successor [of "\<lparr>ms = 10, seq = UINT64_MAX\<rparr>"]
        Increment_successor [of "\<lparr>ms = UINT64_MAX, seq = UINT64_MAX\<rparr>"]
  by (simp add: UINT64_MAX_def)

text \<open>
  C4. With \<open>now_ms\<close> the clock value read by the call: if \<open>now_ms > last.ms\<close> the call
  succeeds with \<open>(now_ms, 0)\<close>; otherwise it returns exactly what Increment returns on
  \<open>last\<close>, which is ExhaustedIDSpace when \<open>last\<close> is \<open>(UINT64_MAX, UINT64_MAX)\<close>.
\<close>

theorem GetNext_cases:
  "(now_ms > ms last_id \<longrightarrow>
      GetNextStreamEntryID now_ms last_id new_id = (OK, \<lparr>ms = now_ms, seq = 0\<rparr>)) \<and>
   (\<not> now_ms > ms last_id \<longrightarrow>
      GetNextStreamEntryID now_ms last_id new_id = IncrementStreamEntryID last_id) \<and>
   (\<not> now_ms > ms last_id \<and> ms last_id = UINT64_MAX \<and> seq last_id = UINT64_MAX \<longrightarrow>
      fst (GetNextStreamEntryID now_ms last_id new_id) = ExhaustedIDSpace)"
  by (simp add: GetNextStreamEntryID_def IncrementStreamEntryID_def ExhaustedIDSpace_def)

theorem GetNext_cases_witness:
  "GetNextStreamEntryID 1005 \<lparr>ms = 1000, seq = 3\<rparr> \<lparr>ms = 0, seq = 0\<rparr>
     = (OK, \<lparr>ms = 1005, seq = 0\<rparr>) \<and>
   GetNextStreamEntryID 999 \<lparr>ms = 1000, seq = 3\<rparr> \<lparr>ms = 0, seq = 0\<rparr>
     = IncrementStreamEntryID \<lparr>ms = 1000, seq = 3\<rparr> \<and>
   fst (GetNextStreamEntryID 7 \<lparr>ms = UINT64_MAX, seq = UINT64_MAX\<rparr> \<lparr>ms = 0, seq = 0\<rparr>)
     = ExhaustedIDSpace"
proof -
  have "GetNextStreamEntryID 1005 \<lparr>ms = 1000, seq = 3\<rparr> \<lparr>ms = 0, seq = 0\<rparr>
          = (OK, \<lparr>ms = 1005, seq = 0\<rparr>)"
    using GetNext_cases [where now_ms = 1005 and last_id = "\<lparr>ms = 1000, seq = 3\<rparr>"
                           and new_id = "\<lparr>ms = 0, seq = 0\<rparr>"]
    by simp
  moreover have "GetNextStreamEntryID 999 \<lparr>ms = 1000, seq = 3\<rparr> \<lparr>ms = 0, seq = 0\<rparr>
          = IncrementStreamEntryID \<lparr>ms = 1000, seq = 3\<rparr>"
    using GetNext_cases [where now_ms = 999 and last_id = "\<lparr>ms = 1000, seq = 3\<rparr>"
                           and new_id = "\<lparr>ms = 0, seq = 0\<rparr>"]
    by simp
  moreover have "fst (GetNextStreamEntryID 7 \<lparr>ms = UINT64_MAX, seq = UINT64_MAX\<rparr>
                        \<lparr>ms = 0, seq = 0\<rparr>) = ExhaustedIDSpace"
    using GetNext_cases [where now_ms = 7
                           and last_id = "\<lparr>ms = UINT64_MAX, seq = UINT64_MAX\<rparr>"
                           and new_id = "\<lparr>ms = 0, seq = 0\<rparr>"]
    unfolding UINT64_MAX_def by (elim conjE) simp
  ultimately show ?thesis by simp
qed

text \<open>
  C5 as stated fails for chains in which a call may take any previously issued
  identifier as its \<open>last\<close>. From \<open>(1000, 4)\<close> a call that reads the clock 2000 issues
  \<open>(2000, 0)\<close>; a second call that takes \<open>(1000, 4)\<close> again and reads the clock 999 issues
  \<open>(1000, 5)\<close>, which is below \<open>(2000, 0)\<close>: the identifiers issued are not increasing.
\<close>

theorem GetNext_stale_last_counterexample:
  "GetNextStreamEntryID 2000 \<lparr>ms = 1000, seq = 4\<rparr> \<lparr>ms = 0, seq = 0\<rparr>
     = (OK, \<lparr>ms = 2000, seq = 0\<rparr>) \<and>
   GetNextStreamEntryID 999 \<lparr>ms = 1000, seq = 4\<rparr> \<lparr>ms = 0, seq = 0\<rparr>
     = (OK, \<lparr>ms = 1000, seq = 5\<rparr>) \<and>
   \<not> id_less \<lparr>ms = 2000, seq = 0\<rparr> \<lparr>ms = 1000, seq = 5\<rparr> \<and>
   issue_from_any [\<lparr>ms = 1000, seq = 4\<rparr>] [(0, 2000), (0, 999)]
     = [\<lparr>ms = 1000, seq = 4\<rparr>, \<lparr>ms = 2000, seq = 0\<rparr>, \<lparr>ms = 1000, seq = 5\<rparr>] \<and>
   \<not> sorted_wrt id_less (issue_from_any [\<lparr>ms = 1000, seq = 4\<rparr>] [(0, 2000), (0, 999)])"
  by (simp add: GetNextStreamEntryID_def IncrementStreamEntryID_def UINT64_MAX_def id_less_def)

text \<open>
  C5, amended. For every \<open>last\<close> other than \<open>(UINT64_MAX, UINT64_MAX)\<close> and every clock
  value, also one at or before \<open>last.ms\<close>, the call succeeds and its result is strictly
  greater than \<open>last\<close> in the \<open>(ms, seq)\<close> order; so the identifiers of a chain of calls,
  each taking as its \<open>last\<close> the identifier issued by the call just before it, are
  strictly increasing from the first \<open>last\<close> on.
\<close>

theorem GetNext_strictly_increasing:
  "(\<not> (ms last_id = UINT64_MAX \<and> seq last_id = UINT64_MAX) \<longrightarrow>
      (\<exists>r. GetNextStreamEntryID now_ms last_id new_id = (OK, r) \<and> id_less last_id r)) \<and>
   sorted_wrt id_less (last_id # issue_chain last_id nows)"
proof -
  have "\<exists>r. GetNextStreamEntryID now_ms last_id new_id = (OK, r) \<and> id_less last_id r"
    if "\<not> (ms last_id = UINT64_MAX \<and> seq last_id = UINT64_MAX)"
  proof -
    obtain st r where g: "GetNextStreamEntryID now_ms last_id new_id = (st, r)"
      by (cases "GetNextStreamEntryID now_ms last_id new_id")
    then have "st = OK" using GetNext_OK [OF that, of now_ms new_id] by simp
    then show ?thesis using g GetNext_greater by blast
  qed
  then show ?thesis using issue_chain_sorted issue_chain_greater by simp
qed

theorem GetNext_strictly_increasing_witness:
  "GetNextStreamEntryID 999 \<lparr>ms = 1000, seq = 3\<rparr> \<lparr>ms = 0, seq = 0\<rparr>
     = (OK, \<lparr>ms = 1000, seq = 4\<rparr>) \<and>
   id_less \<lparr>ms = 1000, seq = 3\<rparr> \<lparr>ms = 1000, seq = 4\<rparr> \<and>
   issue_chain \<lparr>ms = 1000, seq = 3\<rparr> [999, 1000, 1005, 1001]
     = [\<lparr>ms = 1000, seq = 4\<rparr>, \<lparr>ms = 1000, seq = 5\<rparr>, \<lparr>ms = 1005, seq = 0\<rparr>,
        \<lparr>ms = 1005, seq = 1\<rparr>] \<and>
   sorted_wrt id_less (\<lparr>ms = 1000, seq = 3\<rparr> # issue_chain \<lparr>ms = 1000, seq = 3\<rparr> [999, 1000, 1005, 1001])"
  using GetNext_strictly_increasing
          [where last_id = "\<lparr>ms = 1000, seq = 3\<rparr>" and now_ms = 999
             and new_id = "\<lparr>ms = 0, seq = 0\<rparr>" and nows = "[999, 1000, 1005, 1001]"]
  by (simp add: UINT64_MAX_def GetNextStreamEntryID_def IncrementStreamEntryID_def id_less_def)


section \<open>Properties of the parsers\<close>

lemma find_char_None: "c \<notin> set s \<Longrightarrow> find_char c s = None"
  by (induction s) auto

lemma find_char_append: "c \<notin> set a \<Longrightarrow> find_char c (a @ c # b) = Some (length a)"
  by (induction a) auto

lemma dash_not_digit: "\<not> is_digit CHR ''-''"
  by (simp add: is_digit_def)

lemma ParseInt_digits: "ParseInt_uint64 v = Some m \<Longrightarrow> list_all is_digit v"
  by (simp add: ParseInt_uint64_def split: if_splits)

lemma ParseInt_no_dash:
  assumes "ParseInt_uint64 v = Some m" shows "CHR ''-'' \<notin> set v"
proof
  assume "CHR ''-'' \<in> set v"
  then have "is_digit CHR ''-''" using ParseInt_digits [OF assms] by (simp add: list_all_iff)
  then show False using dash_not_digit by simp
qed

lemma ParseInt_not_star: "ParseInt_uint64 ''*'' = None"
  by (simp add: ParseInt_uint64_def is_digit_def)

lemma ParseInt_star: "ParseInt_uint64 v = Some m \<Longrightarrow> v \<noteq> ''*''"
  using ParseInt_not_star by auto

lemmas eval_ParseInt = ParseInt_uint64_def is_digit_def decimal_value_def digit_value_def

text \<open>The largest component the model of \<open>ParseInt\<close> accepts, and some it rejects.\<close>

lemma ParseInt_uint64_limits:
  "ParseInt_uint64 ''18446744073709551615'' = Some UINT64_MAX"
  "ParseInt_uint64 ''18446744073709551616'' = None"
  "ParseInt_uint64 [] = None"
  "ParseInt_uint64 ''abc'' = None"
  "ParseInt_uint64 ''+5'' = None"
  by (simp_all add: eval_ParseInt UINT64_MAX_def)

lemma ParseStreamEntryID_examples:
  "ParseStreamEntryID ''123'' \<lparr>ms = 9, seq = 9\<rparr> = (OK, \<lparr>ms = 123, seq = 0\<rparr>)"
  "ParseStreamEntryID ''123-45'' \<lparr>ms = 9, seq = 9\<rparr> = (OK, \<lparr>ms = 123, seq = 45\<rparr>)"
  "ParseStreamEntryID ''abc'' \<lparr>ms = 9, seq = 9\<rparr> = (MalformedInput, \<lparr>ms = 9, seq = 9\<rparr>)"
  "ParseStreamEntryID ''123-*'' \<lparr>ms = 9, seq = 9\<rparr> = (MalformedInput, \<lparr>ms = 9, seq = 9\<rparr>)"
  by (simp_all add: ParseStreamEntryID_def MalformedInput_def eval_ParseInt)

text \<open>
  The exact-id parser and the two range parsers read both components before they write
  either: when they fail, the identifier is as the caller passed it.
\<close>

lemma ParseStreamEntryID_failure_unchanged:
  "fst (ParseStreamEntryID input eid) \<noteq> OK \<Longrightarrow> snd (ParseStreamEntryID input eid) = eid"
  by (auto simp: ParseStreamEntryID_def Let_def split: option.splits)

lemma ParseRangeEnd_failure_unchanged:
  "fst (ParseRangeEnd input eid) \<noteq> OK \<Longrightarrow> snd (ParseRangeEnd input eid) = eid"
  by (auto simp: ParseRangeEnd_def Let_def split: option.splits)

lemma ParseRangeStart_failure_unchanged:
  "fst (ParseRangeStart input eid) \<noteq> OK \<Longrightarrow> snd (ParseRangeStart input eid) = eid"
  by (simp add: ParseRangeStart_def ParseStreamEntryID_failure_unchanged)

text \<open>
  C6. A parser that fails with MalformedInput is claimed to leave the identifier
  untouched. The new-entry parser stores \<open>ms\<close> before it looks at the sequence part: on
  the input \<open>123-x\<close> it fails with MalformedInput and the identifier, \<open>(0, 0)\<close> on entry,
  holds \<open>ms = 123\<close> on return.
\<close>

theorem ParseNewStreamEntryID_partial_write:
  "ParseNewStreamEntryID ''123-x'' \<lparr>ms = 0, seq = 0, any_seq_number = False\<rparr>
     = (MalformedInput, \<lparr>ms = 123, seq = 0, any_seq_number = False\<rparr>)"
  by (simp add: ParseNewStreamEntryID_def MalformedInput_def eval_ParseInt)

text \<open>
  C7 as stated fails: the new-entry parser never stores \<open>False\<close> in \<open>any_seq_number\<close>, so
  on \<open>123-45\<close> an identifier whose flag is set on entry keeps it set.
\<close>

theorem ParseNewStreamEntryID_flag_counterexample:
  "ParseNewStreamEntryID ''123-45'' \<lparr>ms = 0, seq = 0, any_seq_number = True\<rparr>
     = (OK, \<lparr>ms = 123, seq = 45, any_seq_number = True\<rparr>)"
  by (simp add: ParseNewStreamEntryID_def eval_ParseInt)

text \<open>
  C7, amended. With \<open>ms_str\<close> and \<open>seq_str\<close> valid base-10 unsigned 64-bit components of
  values \<open>m\<close> and \<open>s\<close>: on \<open>ms_str-*\<close> the parser succeeds with \<open>ms = m\<close> and
  \<open>any_seq_number = true\<close>, \<open>seq\<close> left as passed; on \<open>ms_str\<close> alone it succeeds with
  \<open>ms = m\<close>, \<open>seq = 0\<close>, and on \<open>ms_str-seq_str\<close> with \<open>ms = m\<close>, \<open>seq = s\<close>, in both
  cases with \<open>any_seq_number\<close> left as passed, hence false when it was false on entry.
\<close>

theorem ParseNewStreamEntryID_forms:
  "(ParseInt_uint64 ms_str = Some m \<longrightarrow>
      ParseNewStreamEntryID (ms_str @ ''-*'') eid
        = (OK, \<lparr>ms = m, seq = seq eid, any_seq_number = True\<rparr>) \<and>
      ParseNewStreamEntryID ms_str eid
        = (OK, \<lparr>ms = m, seq = 0, any_seq_number = any_seq_number eid\<rparr>)) \<and>
   (ParseInt_uint64 ms_str = Some m \<and> ParseInt_uint64 seq_str = Some s \<longrightarrow>
      ParseNewStreamEntryID (ms_str @ ''-'' @ seq_str) eid
        = (OK, \<lparr>ms = m, seq = s, any_seq_number = any_seq_number eid\<rparr>)) \<and>
   (ParseInt_uint64 ms_str = Some m \<and> ParseInt_uint64 seq_str = Some s
      \<and> \<not> any_seq_number eid \<longrightarrow>
      ParseNewStreamEntryID ms_str eid = (OK, \<lparr>ms = m, seq = 0, any_seq_number = False\<rparr>) \<and>
      ParseNewStreamEntryID (ms_str @ ''-'' @ seq_str) eid
        = (OK, \<lparr>ms = m, seq = s, any_seq_number = False\<rparr>))"
proof -
  have star: "ParseNewStreamEntryID (ms_str @ ''-*'') eid
        = (OK, \<lparr>ms = m, seq = seq eid, any_seq_number = True\<rparr>)"
    if "ParseInt_uint64 ms_str = Some m"
    using that find_char_append [OF ParseInt_no_dash [OF that], of "''*''"]
    by (simp add: ParseNewStreamEntryID_def)
  have bare: "ParseNewStreamEntryID ms_str eid
        = (OK, \<lparr>ms = m, seq = 0, any_seq_number = any_seq_number eid\<rparr>)"
    if "ParseInt_uint64 ms_str = Some m"
    using that find_char_None [OF ParseInt_no_dash [OF that]]
    by (simp add: ParseNewStreamEntryID_def)
  have full: "ParseNewStreamEntryID (ms_str @ ''-'' @ seq_str) eid
        = (OK, \<lparr>ms = m, seq = s, any_seq_number = any_seq_number eid\<rparr>)"
    if "ParseInt_uint64 ms_str = Some m" and "ParseInt_uint64 seq_str = Some s"
    using that find_char_append [OF ParseInt_no_dash [OF that(1)], of seq_str]
      ParseInt_star [OF that(2)]
    by (simp add: ParseNewStreamEntryID_def)
  show ?thesis using star bare full by auto
qed

theorem ParseNewStreamEntryID_forms_witness:
  "ParseNewStreamEntryID ''123-*'' \<lparr>ms = 0, seq = 0, any_seq_number = False\<rparr>
     = (OK, \<lparr>ms = 123, seq = 0, any_seq_number = True\<rparr>) \<and>
   ParseNewStreamEntryID ''123'' \<lparr>ms = 7, seq = 7, any_seq_number = False\<rparr>
     = (OK, \<lparr>ms = 123, seq = 0, any_seq_number = False\<rparr>) \<and>
   ParseNewStreamEntryID ''123-45'' \<lparr>ms = 0, seq = 0, any_seq_number = False\<rparr>
     = (OK, \<lparr>ms = 123, seq = 45, any_seq_number = False\<rparr>)"
proof -
  have p: "ParseInt_uint64 ''123'' = Some 123" "ParseInt_uint64 ''45'' = Some 45"
    by (simp_all add: eval_ParseInt)
  show ?thesis
    using p
      ParseNewStreamEntryID_forms [where ms_str = "''123''" and m = 123 and seq_str = "''45''"
        and s = 45 and eid = "\<lparr>ms = 0, seq = 0, any_seq_number = False\<rparr>"]
      ParseNewStreamEntryID_forms [where ms_str = "''123''" and m = 123 and seq_str = "''45''"
        and s = 45 and eid = "\<lparr>ms = 7, seq = 7, any_seq_number = False\<rparr>"]
    by simp
qed

text \<open>
  C8. On a bare valid \<open>ms\<close> value the start parser succeeds with \<open>(ms, 0)\<close> and the end
  parser with \<open>(ms, UINT64_MAX)\<close>; on \<open>ms-seq\<close> with both components valid, both succeed
  with exactly \<open>(ms, seq)\<close>.
\<close>

theorem Range_defaulting:
  "(ParseInt_uint64 ms_str = Some m \<longrightarrow>
      ParseRangeStart ms_str eid = (OK, \<lparr>ms = m, seq = 0\<rparr>) \<and>
      ParseRangeEnd ms_str eid = (OK, \<lparr>ms = m, seq = UINT64_MAX\<rparr>)) \<and>
   (ParseInt_uint64 ms_str = Some m \<and> ParseInt_uint64 seq_str = Some s \<longrightarrow>
      ParseRangeStart (ms_str @ ''-'' @ seq_str) eid = (OK, \<lparr>ms = m, seq = s\<rparr>) \<and>
      ParseRangeEnd (ms_str @ ''-'' @ seq_str) eid = (OK, \<lparr>ms = m, seq = s\<rparr>))"
proof -
  have bare: "ParseRangeStart ms_str eid = (OK, \<lparr>ms = m, seq = 0\<rparr>) \<and>
      ParseRangeEnd ms_str eid = (OK, \<lparr>ms = m, seq = UINT64_MAX\<rparr>)"
    if "ParseInt_uint64 ms_str = Some m"
    using that find_char_None [OF ParseInt_no_dash [OF that]]
    by (simp add: ParseRangeStart_def ParseStreamEntryID_def ParseRangeEnd_def)
  have full: "ParseRangeStart (ms_str @ ''-'' @ seq_str) eid = (OK, \<lparr>ms = m, seq = s\<rparr>) \<and>
      ParseRangeEnd (ms_str @ ''-'' @ seq_str) eid = (OK, \<lparr>ms = m, seq = s\<rparr>)"
    if "ParseInt_uint64 ms_str = Some m" and "ParseInt_uint64 seq_str = Some s"
    using that find_char_append [OF ParseInt_no_dash [OF that(1)], of seq_str]
    by (simp add: ParseRangeStart_def ParseStreamEntryID_def ParseRangeEnd_def)
  show ?thesis using bare full by blast
qed

theorem Range_defaulting_witness:
  "ParseRangeStart ''5'' \<lparr>ms = 9, seq = 9\<rparr> = (OK, \<lparr>ms = 5, seq = 0\<rparr>) \<and>
   ParseRangeEnd ''5'' \<lparr>ms = 9, seq = 9\<rparr> = (OK, \<lparr>ms = 5, seq = UINT64_MAX\<rparr>) \<and>
   ParseRangeStart ''5-17'' \<lparr>ms = 9, seq = 9\<rparr> = (OK, \<lparr>ms = 5, seq = 17\<rparr>) \<and>
   ParseRangeEnd ''5-17'' \<lparr>ms = 9, seq = 9\<rparr> = (OK, \<lparr>ms = 5, seq = 17\<rparr>)"
proof -
  have p: "ParseInt_uint64 ''5'' = Some 5" "ParseInt_uint64 ''17'' = Some 17"
    by (simp_all add: eval_ParseInt)
  show ?thesis
    using p Range_defaulting [where ms_str = "''5''" and m = 5 and seq_str = "''17''"
        and s = 17 and eid = "\<lparr>ms = 9, seq = 9\<rparr>"]
    by simp
qed

text \<open>
  C10. On every input and every identifier passed, the range-start parser returns what
  the exact-id parser returns: the same status and the same identifier.
\<close>

theorem ParseRangeStart_is_ParseStreamEntryID:
  "ParseRangeStart input eid = ParseStreamEntryID input eid"
  by (simp add: ParseRangeStart_def)


section \<open>Properties of the value codec\<close>

lemma bit_127: "bit (127 :: 'a::len word) n \<longleftrightarrow> n < 7 \<and> n < LENGTH('a)"
proof -
  have "(127 :: 'a word) = mask 7" by (simp add: mask_eq_exp_minus_1)
  then show ?thesis by (simp only: bit_mask_iff) (auto simp: bit_simps)
qed

lemma bit_128: "bit (128 :: 'a::len word) n \<longleftrightarrow> n = 7 \<and> n < LENGTH('a)"
proof -
  have "(128 :: 'a word) = push_bit 7 1" by simp
  then show ?thesis by (simp only: bit_push_bit_iff) (auto simp: bit_simps)
qed

lemma low7: "(ucast (ucast (v OR 128 :: 32 word) :: byte) :: 32 word) AND 127 = v AND 127"
  by (rule bit_eqI, simp only: bit_simps bit_127 bit_128) auto

lemma top_set: "(ucast (v OR 128 :: 32 word) :: byte) AND 128 \<noteq> 0"
proof -
  have "bit ((ucast (v OR 128 :: 32 word) :: byte) AND 128) 7"
    by (simp only: bit_simps bit_127 bit_128) simp
  then show ?thesis by auto
qed

lemma small_bits:
  assumes "v < 128" and "bit (v :: 32 word) n" shows "n < 7"
proof -
  have "v < 2 ^ 7" using assms(1) by simp
  then have "v AND mask 7 = v" by (rule less_mask_eq)
  then have "bit (v AND mask 7) n" using assms(2) by simp
  then show ?thesis by (simp add: bit_simps)
qed

lemma small_byte: "v < 128 \<Longrightarrow> (ucast (v :: 32 word) :: byte) AND 128 = 0"
  by (rule bit_eqI, simp only: bit_simps bit_127 bit_128) (auto dest: small_bits)

lemma small_back: "v < 128 \<Longrightarrow> (ucast (ucast (v :: 32 word) :: byte) :: 32 word) = v"
  by (rule bit_eqI, simp only: bit_simps bit_127 bit_128) (auto dest: small_bits)

lemma recompose: "(v AND 127) OR push_bit 7 (drop_bit 7 v) = (v :: 32 word)"
proof (rule bit_eqI)
  fix n
  assume "possible_bit TYPE(32 word) n"
  show "bit ((v AND 127) OR push_bit 7 (drop_bit 7 v)) n = bit v n"
  proof (cases "n < 7")
    case True
    then show ?thesis by (simp only: bit_simps bit_127 bit_128) (auto dest: bit_imp_le_length)
  next
    case False
    then have "7 + (n - 7) = n" by simp
    then show ?thesis using False
      by (simp only: bit_simps bit_127 bit_128) (auto dest: bit_imp_le_length)
  qed
qed

lemma EncodeVarint32_length:
  "unat v < 2 ^ (7 * Suc k) \<Longrightarrow> length (EncodeVarint32 v) \<le> Suc k"
proof (induction k arbitrary: v)
  case 0
  then have "v < 128" by (simp add: word_less_nat_alt)
  then show ?case by (simp add: EncodeVarint32.simps [of v])
next
  case (Suc k)
  have "unat (drop_bit 7 v) = drop_bit 7 (unat v)" by (rule unat_drop_bit_eq)
  also have "\<dots> = unat v div 2 ^ 7" by (rule drop_bit_eq_div)
  also have "\<dots> < 2 ^ (7 * Suc k)"
  proof -
    have "unat v < 2 ^ (7 * Suc k) * 2 ^ 7" using Suc.prems by (simp add: power_add)
    then show ?thesis by (rule less_mult_imp_div_less)
  qed
  finally have "length (EncodeVarint32 (drop_bit 7 v)) \<le> Suc k" by (rule Suc.IH)
  then show ?case by (simp add: EncodeVarint32.simps [of v])
qed

lemma EncodeVarint32_length5: "length (EncodeVarint32 v) \<le> 5"
proof -
  have "unat v < 2 ^ 32" using unsigned_less [of v] by simp
  then have "unat v < 2 ^ (7 * Suc 4)" by simp
  then have "length (EncodeVarint32 v) \<le> Suc 4" by (rule EncodeVarint32_length)
  then show ?thesis by simp
qed

lemma EncodeVarint32_nonempty: "EncodeVarint32 v \<noteq> []"
  by (simp add: EncodeVarint32.simps [of v])

lemma GetVarint32Ptr_Encode:
  "shift + 7 * length (EncodeVarint32 v) \<le> 35 \<Longrightarrow>
   GetVarint32Ptr shift acc (EncodeVarint32 v @ rest) = Some (acc OR push_bit shift v, rest)"
proof (induction v arbitrary: shift acc rule: EncodeVarint32.induct)
  case (1 v)
  show ?case
  proof (cases "v < 128")
    case True
    then have e: "EncodeVarint32 v = [ucast v]" by (simp add: EncodeVarint32.simps [of v])
    have "shift \<le> 28" using "1.prems" e by simp
    then show ?thesis using True by (simp add: e small_byte small_back)
  next
    case False
    then have e: "EncodeVarint32 v = ucast (v OR 128) # EncodeVarint32 (drop_bit 7 v)"
      by (simp add: EncodeVarint32.simps [of v])
    have l: "(shift + 7) + 7 * length (EncodeVarint32 (drop_bit 7 v)) \<le> 35"
      using "1.prems" e by simp
    have "1 \<le> length (EncodeVarint32 (drop_bit 7 v))"
      using EncodeVarint32_nonempty [of "drop_bit 7 v"] by (simp add: Suc_le_eq)
    then have s: "shift \<le> 28" using l by simp
    have r: "push_bit shift (v AND 127) OR push_bit (shift + 7) (drop_bit 7 v) = push_bit shift v"
    proof -
      have "push_bit shift (v AND 127) OR push_bit (shift + 7) (drop_bit 7 v)
            = push_bit shift ((v AND 127) OR push_bit 7 (drop_bit 7 v))"
        by (simp only: push_bit_or push_bit_push_bit add.commute)
      then show ?thesis by (simp only: recompose)
    qed
    have "GetVarint32Ptr shift acc (EncodeVarint32 v @ rest)
          = GetVarint32Ptr (shift + 7) (acc OR push_bit shift (v AND 127))
              (EncodeVarint32 (drop_bit 7 v) @ rest)"
      using s by (simp add: e top_set low7)
    also have "\<dots> = Some ((acc OR push_bit shift (v AND 127))
                               OR push_bit (shift + 7) (drop_bit 7 v), rest)"
      using "1.IH" [OF False l] .
    also have "(acc OR push_bit shift (v AND 127)) OR push_bit (shift + 7) (drop_bit 7 v)
               = acc OR push_bit shift v"
      by (simp only: or.assoc r)
    finally show ?thesis .
  qed
qed

lemma GetVarint32_Encode: "GetVarint32 (EncodeVarint32 v @ rest) = Some (v, rest)"
  using GetVarint32Ptr_Encode [of 0 v 0 rest] EncodeVarint32_length5 [of v]
  by (simp add: GetVarint32_def)


lemma Encode_foldl:
  "foldl (\<lambda>dst v. PutVarint32 dst (of_nat (length v)) @ v) dst args
     = dst @ concat (map encode_element args)"
  by (induction args arbitrary: dst) (simp_all add: PutVarint32_def encode_element_def)

lemma EncodeStreamEntryValue_concat:
  "EncodeStreamEntryValue args = concat (map encode_element args)"
  by (simp add: EncodeStreamEntryValue_def Encode_foldl)

lemma unat_length32: "length (v :: byte list) < 2 ^ 32 \<Longrightarrow> unat (of_nat (length v) :: 32 word) = length v"
  by (simp add: unat_of_nat)

lemma decode_loop_element:
  assumes "length v < 2 ^ 32"
  shows "decode_loop (encode_element v @ rest) result = decode_loop rest (result @ [v])"
proof -
  have ne: "encode_element v \<noteq> []"
    using EncodeVarint32_nonempty by (simp add: encode_element_def)
  have g: "GetVarint32 (encode_element v @ rest) = Some (of_nat (length v), v @ rest)"
    using GetVarint32_Encode [of "of_nat (length v)" "v @ rest"] by (simp add: encode_element_def)
  show ?thesis
    using ne by (subst decode_loop.simps) (simp add: g unat_length32 [OF assms])
qed

lemma decode_loop_encoded:
  "\<forall>v \<in> set args. length v < 2 ^ 32 \<Longrightarrow>
   decode_loop (concat (map encode_element args)) result = Returns (OK, result @ args)"
proof (induction args arbitrary: result)
  case Nil
  show ?case by (simp add: decode_loop.simps [of "[]"])
next
  case (Cons v args)
  then show ?case by (simp add: decode_loop_element)
qed

text \<open>What the decoder does at a length prefix, case by case.\<close>

lemma decode_loop_truncated_prefix:
  "s \<noteq> [] \<Longrightarrow> GetVarint32 s = None \<Longrightarrow> decode_loop s result = Returns (CodecCorruption, result)"
  by (subst decode_loop.simps) (simp add: CodecCorruption_def)

lemma decode_loop_overlong_length:
  "GetVarint32 s = Some (len, s') \<Longrightarrow> length s' < unat len \<Longrightarrow> decode_loop s result = ReadsPastEnd"
  by (subst decode_loop.simps) (auto simp: GetVarint32_def)

lemma decode_loop_zeros: "decode_loop (replicate n 0) result = Returns (OK, result @ replicate n [])"
proof (induction n arbitrary: result)
  case 0
  show ?case by (simp add: decode_loop.simps [of "[]"])
next
  case (Suc n)
  have "decode_loop (replicate (Suc n) 0) result = decode_loop (replicate n 0) (result @ [[]])"
    by (subst decode_loop.simps) (simp add: GetVarint32_def)
  then show ?case by (simp add: Suc.IH replicate_append_same)
qed

lemma encode_element_zeros:
  assumes "(of_nat n :: 32 word) = 0"
  shows "encode_element (replicate n 0) = replicate (Suc n) 0"
  by (simp add: encode_element_def assms EncodeVarint32.simps [of 0])

lemma EncodeStreamEntryValue_singleton: "EncodeStreamEntryValue [v] = encode_element v"
  by (simp add: EncodeStreamEntryValue_concat)

lemma replicate_Suc_Nil_neq: "y \<noteq> [] \<Longrightarrow> replicate (Suc n) [] \<noteq> [y]"
  by auto

text \<open>
  C1. When the decoded length exceeds the bytes that remain, the claim requires a
  CodecCorruption failure and no read beyond the buffer. On the three bytes \<open>05 61 62\<close>
  the prefix decodes to 5 with two bytes left: the source builds the element from five
  bytes at \<open>s.data()\<close> and removes a prefix of five from a slice of two. No status comes
  back for the out-of-range length; the run reads past the end of the buffer.
\<close>

theorem Decode_overlong_length_reads_past_end:
  "GetVarint32 [5, 97, 98] = Some (5, [97, 98]) \<and>
   DecodeRawStreamEntryValue [5, 97, 98] [] = ReadsPastEnd \<and>
   DecodeRawStreamEntryValue [5, 97, 98] [] \<noteq> Returns (CodecCorruption, [])"
proof -
  have g: "GetVarint32 [5, 97, 98] = Some (5, [97, 98])" by (simp add: GetVarint32_def)
  have "decode_loop [5, 97, 98] [] = ReadsPastEnd"
    by (rule decode_loop_overlong_length [OF g]) simp
  then show ?thesis using g by (simp add: DecodeRawStreamEntryValue_def)
qed

text \<open>
  C2 as stated fails: the length handed to \<open>PutVarint32\<close> is cut to 32 bits, so an element
  of \<open>2 ^ 32\<close> bytes is written with the prefix 0. With all its bytes zero, the encoding
  decodes to \<open>2 ^ 32 + 1\<close> empty elements, not to the element that was encoded.
\<close>

theorem Decode_Encode_counterexample:
  "DecodeRawStreamEntryValue (EncodeStreamEntryValue [replicate (2 ^ 32) 0]) []
     = Returns (OK, replicate (Suc (2 ^ 32)) []) \<and>
   DecodeRawStreamEntryValue (EncodeStreamEntryValue [replicate (2 ^ 32) 0]) []
     \<noteq> Returns (OK, [replicate (2 ^ 32) 0])"
proof -
  have z: "(of_nat (2 ^ 32) :: 32 word) = 0" by simp
  have e: "EncodeStreamEntryValue [replicate (2 ^ 32) 0] = replicate (Suc (2 ^ 32)) 0"
    using encode_element_zeros [OF z] by (simp only: EncodeStreamEntryValue_singleton)
  have d: "DecodeRawStreamEntryValue (EncodeStreamEntryValue [replicate (2 ^ 32) 0]) []
        = Returns (OK, replicate (Suc (2 ^ 32)) [])"
    by (simp only: e DecodeRawStreamEntryValue_def decode_loop_zeros append_Nil)
  have "replicate (2 ^ 32) (0 :: byte) \<noteq> []" by simp
  then have "replicate (Suc (2 ^ 32)) [] \<noteq> [replicate (2 ^ 32) (0 :: byte)]"
    by (rule replicate_Suc_Nil_neq)
  then show ?thesis by (simp only: d run.inject prod.inject) simp
qed

text \<open>
  C2, amended. For every finite ordered list of byte strings whose elements are each
  shorter than \<open>2 ^ 32\<close> bytes, the empty list and zero-length elements included, decoding
  the encoding succeeds and returns exactly that list, whatever \<open>result\<close> held before.
\<close>

theorem Decode_Encode_roundtrip:
  "\<forall>v \<in> set args. length v < 2 ^ 32 \<Longrightarrow>
   DecodeRawStreamEntryValue (EncodeStreamEntryValue args) result = Returns (OK, args)"
  using decode_loop_encoded [of args "[]"]
  by (simp add: DecodeRawStreamEntryValue_def EncodeStreamEntryValue_concat)

theorem Decode_Encode_roundtrip_witness:
  "DecodeRawStreamEntryValue (EncodeStreamEntryValue [[102, 49], [], [118, 49]]) [[7]]
     = Returns (OK, [[102, 49], [], [118, 49]]) \<and>
   DecodeRawStreamEntryValue (EncodeStreamEntryValue []) [[7]] = Returns (OK, [])"
proof -
  have h: "\<forall>v \<in> set [[102, 49], [], [118, 49 :: byte]]. length v < 2 ^ 32" by simp
  have h0: "\<forall>v \<in> set ([] :: byte list list). length v < 2 ^ 32" by simp
  show ?thesis
    using Decode_Encode_roundtrip [OF h, of "[[7]]"] Decode_Encode_roundtrip [OF h0, of "[[7]]"]
    by simp
qed


section \<open>Retry policy of the output primitives\<close>

lemma sint_small:
  assumes "n < 2 ^ 63" shows "sint (of_nat n :: 64 word) = int n"
proof -
  have "int n < int (2 ^ 63)" using assms by (simp only: of_nat_less_iff)
  then have "int n < 2 ^ 63" by simp
  moreover have "- (2 ^ 63) \<le> int n" by (rule order_trans [of _ 0]) simp_all
  ultimately have "signed_take_bit 63 (int n) = int n"
    by (simp only: signed_take_bit_int_eq_self)
  then show ?thesis by (simp only: signed_of_nat) simp
qed

lemma sless_length:
  assumes "0 < n" "n < 2 ^ 63" shows "word_sless 0 (of_nat n :: 64 word)"
  using assms by (simp add: word_sless_alt sint_small)

lemma chunk_le: "chunk sz \<le> 16 * 1024"
  by (simp add: chunk_def)

lemma SockSendFile_loop_calls_bounded:
  "SockSendFile_loop sz offset calls outcomes = Some (st, cs) \<Longrightarrow>
   \<forall>c \<in> set calls. snd c \<le> 16 * 1024 \<Longrightarrow> \<forall>c \<in> set cs. snd c \<le> 16 * 1024"
proof (induction outcomes arbitrary: sz offset calls)
  case Nil
  then show ?case by (simp split: if_splits)
next
  case (Cons r rest)
  show ?case
  proof (cases "sz = 0")
    case True
    then show ?thesis using Cons.prems by simp
  next
    case False
    let ?calls' = "calls @ [(offset, chunk sz)]"
    have b: "\<forall>c \<in> set ?calls'. snd c \<le> 16 * 1024"
      using Cons.prems(2) chunk_le by simp
    show ?thesis
    proof (cases "ret r = - 1")
      case True
      show ?thesis
      proof (cases "errno r = EINTR")
        case e: True
        have "SockSendFile_loop sz offset ?calls' rest = Some (st, cs)"
          using Cons.prems(1) False True e by (simp add: chunk_def Let_def)
        then show ?thesis using b by (rule Cons.IH)
      next
        case e: False
        have "cs = ?calls'"
          using Cons.prems(1) False True e by (simp add: chunk_def Let_def)
        then show ?thesis using b by simp
      qed
    next
      case r: False
      have "SockSendFile_loop (sz - ret r) (offset + ret r) ?calls' rest = Some (st, cs)"
        using Cons.prems(1) False r by (simp add: chunk_def Let_def)
      then show ?thesis using b by (rule Cons.IH)
    qed
  qed
qed

text \<open>
  C9. The write loop is claimed to retry a call that fails with EINTR, as
  \<open>SockSendFile\<close> does. \<open>WriteImpl\<close> returns the error of any call that returns \<open>-1\<close> and
  never looks at \<open>errno\<close>: with the first \<open>write\<close> interrupted and a second one ready to
  take all three bytes, \<open>Write\<close> and \<open>SockSend\<close> issue one call and return the error,
  where a run without the interruption returns OK.
\<close>

theorem Write_aborts_on_EINTR:
  "Write [97, 98, 99] [\<lparr>ret = - 1, errno = EINTR\<rparr>, \<lparr>ret = 3, errno = 0\<rparr>]
     = Some (FromErrno EINTR, [(0, 3)]) \<and>
   SockSend [97, 98, 99] [\<lparr>ret = - 1, errno = EINTR\<rparr>, \<lparr>ret = 3, errno = 0\<rparr>]
     = Some (FromErrno EINTR, [(0, 3)]) \<and>
   Write [97, 98, 99] [\<lparr>ret = 3, errno = 0\<rparr>] = Some (OK, [(0, 3)])"
  by (simp add: SockSend_def Write_def WriteImpl_def word_sless_alt)

text \<open>
  What the two loops do, call by call, with each syscall outcome an input. While bytes
  remain, \<open>SockSendFile\<close> issues its call for the remaining size capped at 16 KiB; a call
  that fails with EINTR is followed by the same call again, a call that fails with any
  other \<open>errno\<close> ends the transfer with an error, and a call that does not fail is never
  repeated: the loop goes on after the bytes it reported. Every call of a transfer is
  for at most 16 KiB. In the write loop a call that fails, whatever \<open>errno\<close> is, ends the
  loop with an error.
\<close>

lemma retry_policy:
  "(sz \<noteq> 0 \<and> ret r = - 1 \<and> errno r = EINTR \<longrightarrow>
      SockSendFile_loop sz offset calls (r # rest)
        = SockSendFile_loop sz offset (calls @ [(offset, chunk sz)]) rest) \<and>
   (sz \<noteq> 0 \<and> ret r = - 1 \<and> errno r \<noteq> EINTR \<longrightarrow>
      SockSendFile_loop sz offset calls (r # rest)
        = Some (NotOK_strerror (errno r), calls @ [(offset, chunk sz)])) \<and>
   (sz \<noteq> 0 \<and> ret r \<noteq> - 1 \<longrightarrow>
      SockSendFile_loop sz offset calls (r # rest)
        = SockSendFile_loop (sz - ret r) (offset + ret r) (calls @ [(offset, chunk sz)]) rest) \<and>
   (SockSendFile sz outcomes = Some (st, cs) \<longrightarrow> (\<forall>c \<in> set cs. snd c \<le> 16 * 1024)) \<and>
   (word_sless n sz \<and> ret r = - 1 \<longrightarrow>
      WriteImpl_loop sz n calls (r # rest) = Some (FromErrno (errno r), calls @ [(n, sz - n)])) \<and>
   (data \<noteq> [] \<and> length data < 2 ^ 63 \<and> ret r = - 1 \<longrightarrow>
      SockSend data (r # rest) = Some (FromErrno (errno r), [(0, of_nat (length data))]))"
proof -
  have bounded: "\<forall>c \<in> set cs. snd c \<le> 16 * 1024" if "SockSendFile sz outcomes = Some (st, cs)"
    using that SockSendFile_loop_calls_bounded [of sz 0 "[]" outcomes st cs]
    by (simp add: SockSendFile_def)
  have send: "SockSend data (r # rest) = Some (FromErrno (errno r), [(0, of_nat (length data))])"
    if "data \<noteq> []" and "length data < 2 ^ 63" and "ret r = - 1"
  proof -
    have "word_sless 0 (of_nat (length data) :: 64 word)"
      using that(1,2) by (simp add: sless_length)
    then show ?thesis using that by (simp add: SockSend_def Write_def WriteImpl_def)
  qed
  show ?thesis using bounded send by (simp add: chunk_def Let_def)
qed


lemma retry_policy_examples:
  "SockSendFile_loop 10 0 [] [\<lparr>ret = - 1, errno = EINTR\<rparr>, \<lparr>ret = 10, errno = 0\<rparr>]
     = SockSendFile_loop 10 0 [(0, 10)] [\<lparr>ret = 10, errno = 0\<rparr>] \<and>
   SockSendFile_loop 10 0 [] [\<lparr>ret = - 1, errno = 32\<rparr>, \<lparr>ret = 10, errno = 0\<rparr>]
     = Some (NotOK_strerror 32, [(0, 10)]) \<and>
   SockSendFile_loop 40000 0 [] [\<lparr>ret = 16384, errno = 0\<rparr>]
     = SockSendFile_loop 23616 16384 [(0, 16384)] [] \<and>
   SockSendFile 40000 [\<lparr>ret = 16384, errno = 0\<rparr>, \<lparr>ret = - 1, errno = EINTR\<rparr>,
                       \<lparr>ret = 16384, errno = 0\<rparr>, \<lparr>ret = 7232, errno = 0\<rparr>]
     = Some (OK, [(0, 16384), (16384, 16384), (16384, 16384), (32768, 7232)]) \<and>
   list_all (\<lambda>c. snd c \<le> 16 * 1024)
     [(0, 16384), (16384, 16384), (16384, 16384), (32768 :: 64 word, 7232 :: 64 word)] \<and>
   WriteImpl_loop 3 0 [] [\<lparr>ret = - 1, errno = EINTR\<rparr>, \<lparr>ret = 3, errno = 0\<rparr>]
     = Some (FromErrno EINTR, [(0, 3)]) \<and>
   SockSend [97, 98, 99] [\<lparr>ret = - 1, errno = EINTR\<rparr>, \<lparr>ret = 3, errno = 0\<rparr>]
     = Some (FromErrno EINTR, [(0, 3)])"
proof -
  have run: "SockSendFile 40000 [\<lparr>ret = 16384, errno = 0\<rparr>, \<lparr>ret = - 1, errno = EINTR\<rparr>,
                       \<lparr>ret = 16384, errno = 0\<rparr>, \<lparr>ret = 7232, errno = 0\<rparr>]
     = Some (OK, [(0, 16384), (16384, 16384), (16384, 16384), (32768, 7232)])"
    by (simp add: SockSendFile_def)
  have a: "SockSendFile_loop 10 0 [] [\<lparr>ret = - 1, errno = EINTR\<rparr>, \<lparr>ret = 10, errno = 0\<rparr>]
     = SockSendFile_loop 10 0 [(0, 10)] [\<lparr>ret = 10, errno = 0\<rparr>]"
    using retry_policy [where sz = 10 and offset = 0 and calls = "[]"
        and r = "\<lparr>ret = - 1, errno = EINTR\<rparr>" and rest = "[\<lparr>ret = 10, errno = 0\<rparr>]"]
    by (simp add: chunk_def)
  have b: "SockSendFile_loop 10 0 [] [\<lparr>ret = - 1, errno = 32\<rparr>, \<lparr>ret = 10, errno = 0\<rparr>]
     = Some (NotOK_strerror 32, [(0, 10)])"
    using retry_policy [where sz = 10 and offset = 0 and calls = "[]"
        and r = "\<lparr>ret = - 1, errno = 32\<rparr>" and rest = "[\<lparr>ret = 10, errno = 0\<rparr>]"]
    by (simp add: chunk_def EINTR_def)
  have c: "SockSendFile_loop 40000 0 [] [\<lparr>ret = 16384, errno = 0\<rparr>]
     = SockSendFile_loop 23616 16384 [(0, 16384)] []"
    using retry_policy [where sz = 40000 and offset = 0 and calls = "[]"
        and r = "\<lparr>ret = 16384, errno = 0\<rparr>" and rest = "[]"]
    by (simp add: chunk_def)
  have d: "list_all (\<lambda>c. snd c \<le> 16 * 1024)
     [(0, 16384), (16384, 16384), (16384, 16384), (32768 :: 64 word, 7232 :: 64 word)]"
    using run retry_policy [where sz = 40000 and st = OK
        and outcomes = "[\<lparr>ret = 16384, errno = 0\<rparr>, \<lparr>ret = - 1, errno = EINTR\<rparr>,
                       \<lparr>ret = 16384, errno = 0\<rparr>, \<lparr>ret = 7232, errno = 0\<rparr>]"
        and cs = "[(0, 16384), (16384, 16384), (16384, 16384), (32768, 7232)]"]
    by simp
  have e: "WriteImpl_loop 3 0 [] [\<lparr>ret = - 1, errno = EINTR\<rparr>, \<lparr>ret = 3, errno = 0\<rparr>]
     = Some (FromErrno EINTR, [(0, 3)])"
    using retry_policy [where sz = 3 and n = 0 and calls = "[]"
        and r = "\<lparr>ret = - 1, errno = EINTR\<rparr>" and rest = "[\<lparr>ret = 3, errno = 0\<rparr>]"]
    by (simp add: word_sless_alt)
  have f: "SockSend [97, 98, 99] [\<lparr>ret = - 1, errno = EINTR\<rparr>, \<lparr>ret = 3, errno = 0\<rparr>]
     = Some (FromErrno EINTR, [(0, 3)])"
    using retry_policy [where data = "[97, 98, 99]"
        and r = "\<lparr>ret = - 1, errno = EINTR\<rparr>" and rest = "[\<lparr>ret = 3, errno = 0\<rparr>]"]
    by simp
  show ?thesis using a b c d e f run by (simp only: simp_thms)
qed

end
